theory Spec2Isabelle
  imports Complex_Main
begin

section \<open>Text and character classes\<close>

text \<open>
  A Python \<open>str\<close> is modelled as a \<open>string\<close>, one \<open>char\<close> per code point; the
  model covers the code points below 256. The classes below are the ones the two
  patterns of \<open>parse_receipt\<close> use, as Python's \<open>re\<close> reads them on a \<open>str\<close>:
  \<open>\s\<close> is \<open>str.isspace\<close>, \<open>\d\<close> a decimal digit, \<open>.\<close> anything but a newline.
\<close>

definition newline :: char where
  "newline = CHR 0x0A"

definition is_space :: "char \<Rightarrow> bool" where
  "is_space c \<longleftrightarrow> c \<in> set [CHR 0x09, CHR 0x0A, CHR 0x0B, CHR 0x0C, CHR 0x0D,
     CHR 0x1C, CHR 0x1D, CHR 0x1E, CHR 0x1F, CHR 0x20, CHR 0x85, CHR 0xA0]"

definition is_digit :: "char \<Rightarrow> bool" where
  "is_digit c \<longleftrightarrow> c \<in> set ''0123456789''"

definition is_upper :: "char \<Rightarrow> bool" where
  "is_upper c \<longleftrightarrow> c \<in> set ''ABCDEFGHIJKLMNOPQRSTUVWXYZ''"

definition is_lower :: "char \<Rightarrow> bool" where
  "is_lower c \<longleftrightarrow> c \<in> set ''abcdefghijklmnopqrstuvwxyz''"

definition is_dot :: "char \<Rightarrow> bool" where
  "is_dot c \<longleftrightarrow> c \<noteq> newline"

section \<open>The fragment of Python's regular expressions the program uses\<close>

text \<open>
  Every repetition in the two patterns is over a single character class, so a pattern is
  a sequence of atoms: a class, the least and the greatest number of repetitions
  (\<open>None\<close>: unbounded) and whether the repetition is greedy (\<open>+\<close>, \<open>?\<close>, \<open>{m,n}\<close>)
  or lazy (\<open>+?\<close>). A literal character is a class repeated once.
\<close>

datatype quant = Greedy | Lazy

datatype atom = Atom "char \<Rightarrow> bool" nat "nat option" quant

definition lit :: "char \<Rightarrow> atom" where
  "lit c = Atom (\<lambda>x. x = c) 1 (Some 1) Greedy"

definition plus :: "(char \<Rightarrow> bool) \<Rightarrow> atom" where
  "plus p = Atom p 1 None Greedy"

definition lazy_plus :: "(char \<Rightarrow> bool) \<Rightarrow> atom" where
  "lazy_plus p = Atom p 1 None Lazy"

definition opt :: "(char \<Rightarrow> bool) \<Rightarrow> atom" where
  "opt p = Atom p 0 (Some 1) Greedy"

definition rep :: "(char \<Rightarrow> bool) \<Rightarrow> nat \<Rightarrow> nat \<Rightarrow> atom" where
  "rep p m n = Atom p m (Some n) Greedy"

text \<open>
  The numbers of repetitions an atom may take at the head of \<open>s\<close>, in the order the
  backtracking matcher tries them: longest first when greedy, shortest first when lazy.
\<close>

fun tries :: "atom \<Rightarrow> string \<Rightarrow> nat list" where
  "tries (Atom p lo hi q) s =
     (let run = length (takeWhile p s);
          top = (case hi of None \<Rightarrow> run | Some h \<Rightarrow> min h run)
      in case q of Greedy \<Rightarrow> rev [lo..<Suc top] | Lazy \<Rightarrow> [lo..<Suc top])"

fun first_some :: "('a \<Rightarrow> 'b option) \<Rightarrow> 'a list \<Rightarrow> 'b option" where
  "first_some f [] = None"
| "first_some f (x # xs) = (case f x of Some y \<Rightarrow> Some y | None \<Rightarrow> first_some f xs)"

text \<open>
  \<open>match_here as s\<close> is \<open>re.match\<close>: the first way, in backtracking order, to match
  the atoms at the head of \<open>s\<close>. It returns the text each atom consumed and the rest.
\<close>

primrec match_here :: "atom list \<Rightarrow> string \<Rightarrow> (string list \<times> string) option" where
  "match_here [] s = Some ([], s)"
| "match_here (a # as) s =
     first_some (\<lambda>n. case match_here as (drop n s) of
                        None \<Rightarrow> None
                      | Some (segs, r) \<Rightarrow> Some (take n s # segs, r))
                (tries a s)"

text \<open>\<open>scan as s\<close> is \<open>re.search\<close>: the match at the leftmost position that has one.\<close>

fun scan :: "atom list \<Rightarrow> string \<Rightarrow> (string list \<times> string) option" where
  "scan as [] = match_here as []"
| "scan as (c # s) =
     (case match_here as (c # s) of Some m \<Rightarrow> Some m | None \<Rightarrow> scan as s)"

section \<open>Conversions\<close>

definition digit_val :: "char \<Rightarrow> nat" where
  "digit_val c = of_char c - 48"

text \<open>\<open>int(s)\<close> on a string of decimal digits.\<close>

definition nat_of_digits :: "string \<Rightarrow> nat" where
  "nat_of_digits s = foldl (\<lambda>n c. 10 * n + digit_val c) 0 s"

text \<open>
  \<open>float(s)\<close> on a string of the shape \<open>\d+\.\d{2}\<close>. A float is modelled by the
  rational it stands for: the binary rounding of \<open>float\<close> is not modelled.
\<close>

definition float_of_decimal :: "string \<Rightarrow> rat" where
  "float_of_decimal s =
     (let ip = takeWhile (\<lambda>c. c \<noteq> CHR ''.'') s;
          fp = drop 1 (dropWhile (\<lambda>c. c \<noteq> CHR ''.'') s)
      in of_nat (nat_of_digits ip) + of_nat (nat_of_digits fp) / 10 ^ length fp)"

text \<open>\<open>s.strip()\<close>\<close>

definition strip :: "string \<Rightarrow> string" where
  "strip s = rev (dropWhile is_space (rev (dropWhile is_space s)))"

section \<open>Floating-point values of the item table\<close>

text \<open>
  A \<open>float64\<close> is a rational, an infinity or NaN. pandas divides a column by a column
  without raising: a division by zero gives an infinity, or NaN for \<open>0/0\<close>.
\<close>

datatype fl = Fin rat | PInf | NInf | NaN

definition fdiv :: "rat \<Rightarrow> nat \<Rightarrow> fl" where
  "fdiv t q = (if q \<noteq> 0 then Fin (t / of_nat q)
               else if 0 < t then PInf else if t < 0 then NInf else NaN)"

section \<open>parse_receipt\<close>

text \<open>
  A row of the item table. A quantity is never negative: the parser reads it from
  \<open>\d+\<close>, the widget of the manual entry starts at 1.
\<close>

record line_item =
  item :: string
  qty :: nat
  total :: rat
  unit_price :: fl

text \<open>\<open>([A-Z][a-z]{2,8} \d{1,2}, \d{4}) order\<close>: group 1 is the first seven atoms.\<close>

definition date_atoms :: "atom list" where
  "date_atoms = [rep is_upper 1 1, rep is_lower 2 8, lit CHR '' '', rep is_digit 1 2,
                 lit CHR '','', lit CHR '' '', rep is_digit 4 4]"

definition order_atoms :: "atom list" where
  "order_atoms = map lit '' order''"

definition date_pattern :: "atom list" where
  "date_pattern = date_atoms @ order_atoms"

text \<open>
  \<open>(.+?)\s+Qty\s+(\d+)\s+\$?(\d+\.\d{2})\<close>: group 1 is atom 0, group 2 atom 6,
  group 3 atoms 9 to 11.
\<close>

definition item_pattern :: "atom list" where
  "item_pattern = [lazy_plus is_dot,
                   plus is_space, lit CHR ''Q'', lit CHR ''t'', lit CHR ''y'', plus is_space,
                   plus is_digit,
                   plus is_space, opt (\<lambda>c. c = CHR ''$''),
                   plus is_digit, lit CHR ''.'', rep is_digit 2 2]"

definition not_found :: string where
  "not_found = ''Date Not Found''"

definition order_date_of :: "string \<Rightarrow> string" where
  "order_date_of text =
     (case scan date_pattern text of
        Some (segs, r) \<Rightarrow> concat (take 7 segs)
      | None \<Rightarrow> not_found)"

text \<open>
  \<open>re.finditer\<close> over the item pattern: the leftmost match, then the search goes on
  from where that match ended. The pattern never matches the empty string (its first atom
  takes at least one character), which is why the loop ends.
\<close>

lemma first_some_SomeD:
  "first_some f xs = Some y \<Longrightarrow> \<exists>x\<in>set xs. f x = Some y"
  by (induction xs) (auto split: option.splits)

lemma first_some_None_iff:
  "first_some f xs = None \<longleftrightarrow> (\<forall>x\<in>set xs. f x = None)"
  by (induction xs) (auto split: option.splits)

lemma tries_bounds:
  "n \<in> set (tries (Atom p lo hi q) s) \<longleftrightarrow>
     lo \<le> n \<and> n \<le> length (takeWhile p s) \<and> (case hi of None \<Rightarrow> True | Some h \<Rightarrow> n \<le> h)"
  by (auto simp: Let_def split: option.splits quant.splits)

lemma match_here_shape:
  "match_here as s = Some (segs, r) \<Longrightarrow> s = concat segs @ r \<and> length segs = length as"
proof (induction as arbitrary: s segs r)
  case Nil
  then show ?case by simp
next
  case (Cons a as)
  from Cons.prems obtain n segs' where
    m: "match_here as (drop n s) = Some (segs', r)" and segs: "segs = take n s # segs'"
    by (auto dest!: first_some_SomeD split: option.splits)
  from Cons.IH [OF m] have "drop n s = concat segs' @ r" "length segs' = length as" by simp_all
  with segs show ?case by (metis append_take_drop_id concat.simps(2) append_assoc length_Cons)
qed

lemma match_here_progress:
  assumes "match_here (Atom p (Suc lo) hi q # as) s = Some (segs, r)"
  shows "length r < length s"
proof -
  from assms obtain n segs' where
    n: "n \<in> set (tries (Atom p (Suc lo) hi q) s)" and
    m: "match_here as (drop n s) = Some (segs', r)"
    by (auto dest!: first_some_SomeD split: option.splits simp del: tries.simps)
  from n have "0 < n" "n \<le> length s"
    using length_takeWhile_le [of p s] by (auto simp: tries_bounds simp del: tries.simps)
  moreover from match_here_shape [OF m] have "length r \<le> length (drop n s)"
    by (metis length_append le_add2)
  ultimately show ?thesis by simp
qed

lemma scan_progress:
  "scan (Atom p (Suc lo) hi q # as) s = Some (segs, r) \<Longrightarrow> length r < length s"
proof (induction s)
  case Nil
  then show ?case by (auto dest: match_here_progress simp del: match_here.simps)
next
  case (Cons c s)
  then show ?case
    by (cases "match_here (Atom p (Suc lo) hi q # as) (c # s)")
       (auto dest: match_here_progress simp del: match_here.simps)
qed

function find_items :: "string \<Rightarrow> string list list" where
  "find_items s =
     (case scan item_pattern s of
        None \<Rightarrow> []
      | Some (segs, r) \<Rightarrow> segs # find_items r)"
  by pat_completeness auto
termination
proof (relation "measure length")
  show "wf (measure length)" by simp
next
  fix s :: string and m segs r
  assume "scan item_pattern s = Some m" and "(segs, r) = m"
  then have "scan item_pattern s = Some (segs, r)" by simp
  then have "length r < length s"
    unfolding item_pattern_def lazy_plus_def One_nat_def by (rule scan_progress)
  then show "(r, s) \<in> measure length" by simp
qed

declare find_items.simps [simp del]

text \<open>
  The three groups of an item match, and the row \<open>parse_receipt\<close> appends for it:
  \<open>{'item': item.strip(), 'qty': int(qty), 'total': float(total)}\<close>.
\<close>

definition item_groups :: "string list \<Rightarrow> string \<times> string \<times> string" where
  "item_groups segs = (concat (take 1 segs), concat (take 1 (drop 6 segs)), concat (drop 9 segs))"

definition row_of :: "string list \<Rightarrow> string \<times> nat \<times> rat" where
  "row_of segs =
     (case item_groups segs of (name, q, t) \<Rightarrow> (strip name, nat_of_digits q, float_of_decimal t))"

text \<open>
  The text of the receipt: every page that yields text, each followed by a newline.
\<close>

definition receipt_text :: "string option list \<Rightarrow> string" where
  "receipt_text pages =
     concat (map (\<lambda>page. case page of None \<Rightarrow> [] | Some t \<Rightarrow> if t = [] then [] else t @ [newline])
                 pages)"

text \<open>
  The rest of \<open>parse_receipt\<close>, from the text on. The item table is the list of its
  rows; the empty list stands for the \<open>DataFrame\<close> without columns that is returned when
  nothing matched. \<open>df['total'] / df['qty']\<close> is the column-wise division \<open>fdiv\<close>.
\<close>

definition parse_text :: "string \<Rightarrow> line_item list \<times> string" where
  "parse_text text =
     (let order_date = order_date_of text;
          rows = map row_of (find_items text)
      in if rows = [] then ([], order_date)
         else (map (\<lambda>(i, q, t). \<lparr>item = i, qty = q, total = t, unit_price = fdiv t q\<rparr>) rows,
               order_date))"

definition parse_receipt :: "string option list \<Rightarrow> line_item list \<times> string" where
  "parse_receipt pages = parse_text (receipt_text pages)"

section \<open>Manual items and unit cards (main)\<close>

datatype error =
  KeyError_index nat | KeyError_column string | ZeroDivisionError | OverflowError | ValueError



text \<open>\<open>str(n)\<close> for a natural number and for an integer.\<close>

definition digit_char :: "nat \<Rightarrow> char" where
  "digit_char d = ''0123456789'' ! d"

fun dec :: "nat \<Rightarrow> string" where
  "dec n = (if n < 10 then [digit_char n] else dec (n div 10) @ [digit_char (n mod 10)])"

declare dec.simps [simp del]

definition str_int :: "int \<Rightarrow> string" where
  "str_int i = (if i < 0 then CHR ''-'' # dec (nat (- i)) else dec (nat i))"

text \<open>
  The unit cards: \<open>f"{idx}_{i}: {row['item']}"\<close> for every row \<open>idx\<close> of the table and
  every \<open>i\<close> in \<open>range(qty)\<close>.
\<close>

definition card :: "nat \<Rightarrow> nat \<Rightarrow> string \<Rightarrow> string" where
  "card idx i name = dec idx @ ''_'' @ dec i @ '': '' @ name"

fun cards_from :: "nat \<Rightarrow> line_item list \<Rightarrow> string list" where
  "cards_from idx [] = []"
| "cards_from idx (row # rows) =
     map (\<lambda>i. card idx i (item row)) [0..<qty row] @ cards_from (Suc idx) rows"

definition unit_cards :: "line_item list \<Rightarrow> string list" where
  "unit_cards df = cards_from 0 df"

text \<open>
  The index the tally reads back from a card: \<open>int(card.split(':')[0].split('_')[0])\<close>.
  \<open>int\<close> strips white space and takes a sign.
\<close>

definition int_of_str :: "string \<Rightarrow> error + int" where
  "int_of_str s =
     (let t = strip s;
          neg = (t \<noteq> [] \<and> hd t = CHR ''-'');
          ds = (if t \<noteq> [] \<and> (hd t = CHR ''-'' \<or> hd t = CHR ''+'') then tl t else t)
      in if ds \<noteq> [] \<and> list_all is_digit ds
         then Inr (if neg then - int (nat_of_digits ds) else int (nat_of_digits ds))
         else Inl ValueError)"

definition card_index :: "string \<Rightarrow> error + int" where
  "card_index c =
     int_of_str (takeWhile (\<lambda>x. x \<noteq> CHR ''_'') (takeWhile (\<lambda>x. x \<noteq> CHR '':'') c))"

section \<open>build_summary\<close>

subsection \<open>Arithmetic of the columns\<close>

fun fadd :: "fl \<Rightarrow> fl \<Rightarrow> fl" where
  "fadd (Fin a) (Fin b) = Fin (a + b)"
| "fadd NaN y = NaN"
| "fadd x NaN = NaN"
| "fadd PInf NInf = NaN"
| "fadd NInf PInf = NaN"
| "fadd PInf y = PInf"
| "fadd x PInf = PInf"
| "fadd NInf y = NInf"
| "fadd x NInf = NInf"

definition fsgn :: "fl \<Rightarrow> int" where
  "fsgn x = (case x of Fin a \<Rightarrow> (if 0 < a then 1 else if a < 0 then - 1 else 0)
             | PInf \<Rightarrow> 1 | NInf \<Rightarrow> - 1 | NaN \<Rightarrow> 0)"

fun fmul :: "fl \<Rightarrow> fl \<Rightarrow> fl" where
  "fmul (Fin a) (Fin b) = Fin (a * b)"
| "fmul x y =
     (if x = NaN \<or> y = NaN \<or> fsgn x * fsgn y = 0 then NaN
      else if 0 < fsgn x * fsgn y then PInf else NInf)"

text \<open>\<open>x > 0\<close>\<close>

fun fpos :: "fl \<Rightarrow> bool" where
  "fpos (Fin a) = (0 < a)"
| "fpos PInf = True"
| "fpos NInf = False"
| "fpos NaN = False"

text \<open>\<open>int(x)\<close>: truncation towards zero; an infinity or NaN raises.\<close>

fun int_of_fl :: "fl \<Rightarrow> error + int" where
  "int_of_fl (Fin a) = Inr (if 0 \<le> a then \<lfloor>a\<rfloor> else \<lceil>a\<rceil>)"
| "int_of_fl PInf = Inl OverflowError"
| "int_of_fl NInf = Inl OverflowError"
| "int_of_fl NaN = Inl ValueError"

text \<open>\<open>Series.sum()\<close> skips NaN; the built-in \<open>sum\<close> starts from 0 and does not.\<close>

definition col_sum :: "fl list \<Rightarrow> fl" where
  "col_sum xs = foldl fadd (Fin 0) (filter (\<lambda>x. x \<noteq> NaN) xs)"

definition py_sum :: "fl list \<Rightarrow> fl" where
  "py_sum xs = foldl fadd (Fin 0) xs"

text \<open>
  \<open>f"{x:.2f}"\<close>. The value is rounded to the nearest cent, a tie to the even cent: that
  is what Python does with the exact value of the float, which the rational stands for.
\<close>

definition round_half_even :: "rat \<Rightarrow> int" where
  "round_half_even x =
     (let f = \<lfloor>x\<rfloor>; d = x - of_int f
      in if d < 1 / 2 then f else if 1 / 2 < d then f + 1 else if even f then f else f + 1)"

fun fmt2 :: "fl \<Rightarrow> string" where
  "fmt2 (Fin a) =
     (let c = nat (round_half_even (\<bar>a\<bar> * 100))
      in (if a < 0 then ''-'' else []) @ dec (c div 100) @ ''.'' @
         [digit_char (c mod 100 div 10), digit_char (c mod 10)])"
| "fmt2 PInf = ''inf''"
| "fmt2 NInf = ''-inf''"
| "fmt2 NaN = ''nan''"

subsection \<open>The frame\<close>

text \<open>
  \<open>assign_df\<close> maps column names to columns, and the names of the people are written
  into the same map as the columns of the item table. The frame keeps the numeric columns
  by name, and the \<open>item\<close> column apart for the lines that print it: a name, or, once a
  person called \<open>item\<close> has overwritten the column, a count (\<open>iterrows\<close> then hands
  it over as a float, printed with \<open>.0\<close> up to 16 digits).
\<close>

datatype cell = Str string | Cnt int

fun show_cell :: "cell \<Rightarrow> string" where
  "show_cell (Str s) = s"
| "show_cell (Cnt k) = str_int k @ ''.0''"

record frame =
  item_col :: "cell list"
  num :: "string \<Rightarrow> fl list option"

definition frame_of :: "line_item list \<Rightarrow> frame" where
  "frame_of df =
     (if df = [] then \<lparr>item_col = [], num = Map.empty\<rparr>
      else \<lparr>item_col = map (\<lambda>r. Str (item r)) df,
            num = [''qty'' \<mapsto> map (\<lambda>r. Fin (of_nat (qty r))) df,
                   ''total'' \<mapsto> map (\<lambda>r. Fin (total r)) df,
                   ''unit_price'' \<mapsto> map unit_price df]\<rparr>)"

text \<open>\<open>assign_df[person] = ...\<close>, a column of counts.\<close>

definition set_counts :: "frame \<Rightarrow> string \<Rightarrow> int list \<Rightarrow> frame" where
  "set_counts f p ks =
     \<lparr>item_col = (if p = ''item'' then map Cnt ks else item_col f),
      num = (num f)(p \<mapsto> map (\<lambda>k. Fin (of_int k)) ks)\<rparr>"

text \<open>\<open>assign_df[f"{person}_cost"] = ...\<close>; such a name is never \<open>item\<close>.\<close>

definition set_cost :: "frame \<Rightarrow> string \<Rightarrow> fl list \<Rightarrow> frame" where
  "set_cost f p cs = f\<lparr>num := (num f)(p @ ''_cost'' \<mapsto> cs)\<rparr>"

definition get_col :: "frame \<Rightarrow> string \<Rightarrow> error + fl list" where
  "get_col f k = (case num f k of None \<Rightarrow> Inl (KeyError_column k) | Some c \<Rightarrow> Inr c)"

subsection \<open>The first loop: a count and a cost column for each person\<close>

text \<open>\<open>assign_df.index.map(lambda i: assignments[i].get(person, 0))\<close>\<close>

fun counts_of :: "(nat \<Rightarrow> (string \<Rightarrow> int option) option) \<Rightarrow> string \<Rightarrow> nat list \<Rightarrow> error + int list" where
  "counts_of assignments person [] = Inr []"
| "counts_of assignments person (i # is) =
     (case assignments i of
        None \<Rightarrow> Inl (KeyError_index i)
      | Some d \<Rightarrow>
          (case counts_of assignments person is of
             Inl e \<Rightarrow> Inl e
           | Inr ks \<Rightarrow> Inr ((case d person of None \<Rightarrow> 0 | Some k \<Rightarrow> k) # ks)))"

fun add_people ::
  "(nat \<Rightarrow> (string \<Rightarrow> int option) option) \<Rightarrow> nat \<Rightarrow> string list \<Rightarrow> frame \<Rightarrow> error + frame" where
  "add_people assignments n [] f = Inr f"
| "add_people assignments n (person # people) f =
     (case counts_of assignments person [0..<n] of
        Inl e \<Rightarrow> Inl e
      | Inr ks \<Rightarrow>
          (let f1 = set_counts f person ks
           in case get_col f1 ''unit_price'' of
                Inl e \<Rightarrow> Inl e
              | Inr ups \<Rightarrow>
                  add_people assignments n people
                    (set_cost f1 person (map2 fmul (map (\<lambda>k. Fin (of_int k)) ks) ups))))"

subsection \<open>The second loop: the text\<close>

definition times_sign :: string where
  "times_sign = [CHR 0xD7]"

text \<open>The en dash lies beyond code point 255; it is written as its UTF-8 bytes.\<close>

definition en_dash :: string where
  "en_dash = [CHR 0xE2, CHR 0x80, CHR 0x93]"

text \<open>
  The lines of one person: the rows whose count is positive, each printed as the count,
  the times sign, the item, the en dash and the cost. A row is the item cell, the
  person's count and the person's cost.
\<close>

fun person_lines :: "(cell \<times> fl \<times> fl) list \<Rightarrow> error + string" where
  "person_lines [] = Inr []"
| "person_lines ((name, cnt, cost) # rows) =
     (if fpos cnt then
        (case int_of_fl cnt of
           Inl e \<Rightarrow> Inl e
         | Inr q \<Rightarrow>
             (case person_lines rows of
                Inl e \<Rightarrow> Inl e
              | Inr out \<Rightarrow>
                  Inr (str_int q @ times_sign @ '' '' @ show_cell name @ '' '' @ en_dash @
                       '' $'' @ fmt2 cost @ [newline] @ out)))
      else person_lines rows)"

definition person_total :: "frame \<Rightarrow> string \<Rightarrow> error + fl" where
  "person_total f person =
     (case get_col f (person @ ''_cost'') of Inl e \<Rightarrow> Inl e | Inr cs \<Rightarrow> Inr (col_sum cs))"

definition person_section :: "frame \<Rightarrow> string \<Rightarrow> error + string" where
  "person_section f person =
     (case person_total f person of
        Inl e \<Rightarrow> Inl e
      | Inr total_cost \<Rightarrow>
          (case get_col f person of
             Inl e \<Rightarrow> Inl e
           | Inr cnts \<Rightarrow>
               (case get_col f (person @ ''_cost'') of
                  Inl e \<Rightarrow> Inl e
                | Inr cs \<Rightarrow>
                    (case person_lines (zip (item_col f) (zip cnts cs)) of
                       Inl e \<Rightarrow> Inl e
                     | Inr lines \<Rightarrow>
                         Inr (person @ '': $'' @ fmt2 total_cost @ [newline] @ lines @
                              [newline])))))"

fun sections :: "frame \<Rightarrow> string list \<Rightarrow> error + string" where
  "sections f [] = Inr []"
| "sections f (person # people) =
     (case person_section f person of
        Inl e \<Rightarrow> Inl e
      | Inr s \<Rightarrow> (case sections f people of Inl e \<Rightarrow> Inl e | Inr out \<Rightarrow> Inr (s @ out)))"

text \<open>\<open>sum(assign_df[f"{p}_cost"].sum() for p in people)\<close>\<close>

fun person_totals :: "frame \<Rightarrow> string list \<Rightarrow> error + fl list" where
  "person_totals f [] = Inr []"
| "person_totals f (p # people) =
     (case person_total f p of
        Inl e \<Rightarrow> Inl e
      | Inr t \<Rightarrow> (case person_totals f people of Inl e \<Rightarrow> Inl e | Inr ts \<Rightarrow> Inr (t # ts)))"

definition total_allocated :: "frame \<Rightarrow> string list \<Rightarrow> error + fl" where
  "total_allocated f people =
     (case person_totals f people of Inl e \<Rightarrow> Inl e | Inr ts \<Rightarrow> Inr (py_sum ts))"

definition assign_frame ::
  "line_item list \<Rightarrow> (nat \<Rightarrow> (string \<Rightarrow> int option) option) \<Rightarrow> string list \<Rightarrow> error + frame" where
  "assign_frame df assignments people = add_people assignments (length df) people (frame_of df)"

definition build_summary ::
  "line_item list \<Rightarrow> (nat \<Rightarrow> (string \<Rightarrow> int option) option) \<Rightarrow> string list \<Rightarrow> string
     \<Rightarrow> error + string" where
  "build_summary df assignments people order_date =
     (case assign_frame df assignments people of
        Inl e \<Rightarrow> Inl e
      | Inr f \<Rightarrow>
          (case sections f people of
             Inl e \<Rightarrow> Inl e
           | Inr body \<Rightarrow>
               (case total_allocated f people of
                  Inl e \<Rightarrow> Inl e
                | Inr t \<Rightarrow>
                    Inr (order_date @ '':'' @ [newline, newline] @ body @
                         ''Grand Total = $'' @ fmt2 t @ [newline]))))"


section \<open>What the two patterns match, in the words of the specification\<close>

text \<open>
  A piece of text conforms to an atom when all its characters are in the class and its
  length is within the bounds.
\<close>

fun conf :: "atom \<Rightarrow> string \<Rightarrow> bool" where
  "conf (Atom p lo hi q) seg \<longleftrightarrow>
     list_all p seg \<and> lo \<le> length seg \<and> (case hi of None \<Rightarrow> True | Some h \<Rightarrow> length seg \<le> h)"

text \<open>
  The shape of a line item: an item name (a non-empty run of characters of one line),
  white space, \<open>Qty\<close>, white space, an integer, white space, an optional dollar sign and
  a decimal with exactly two fraction digits. \<open>item_shape s name q t r\<close>: the text \<open>s\<close>
  starts with such a match, followed by \<open>r\<close>.
\<close>

definition white :: "string \<Rightarrow> bool" where
  "white w \<longleftrightarrow> w \<noteq> [] \<and> list_all is_space w"

definition number :: "string \<Rightarrow> bool" where
  "number d \<longleftrightarrow> d \<noteq> [] \<and> list_all is_digit d"

definition item_shape :: "string \<Rightarrow> string \<Rightarrow> string \<Rightarrow> string \<Rightarrow> string \<Rightarrow> bool" where
  "item_shape s name q t r \<longleftrightarrow>
     (\<exists>w1 w2 w3 dollar ip fp.
        s = name @ w1 @ ''Qty'' @ w2 @ q @ w3 @ dollar @ t @ r \<and> t = ip @ ''.'' @ fp \<and>
        name \<noteq> [] \<and> newline \<notin> set name \<and> white w1 \<and> white w2 \<and> number q \<and> white w3 \<and>
        (dollar = [] \<or> dollar = ''$'') \<and> number ip \<and> length fp = 2 \<and> list_all is_digit fp)"


text \<open>
  The shape of the order date: a capitalised month name of 3 to 9 letters, a day of 1 or 2
  digits, a comma, a year of 4 digits.
\<close>

definition date_shape :: "string \<Rightarrow> bool" where
  "date_shape d \<longleftrightarrow>
     (\<exists>u ls dd yyyy.
        d = u # ls @ '' '' @ dd @ '', '' @ yyyy \<and> is_upper u \<and>
        list_all is_lower ls \<and> 2 \<le> length ls \<and> length ls \<le> 8 \<and>
        list_all is_digit dd \<and> 1 \<le> length dd \<and> length dd \<le> 2 \<and>
        list_all is_digit yyyy \<and> length yyyy = 4)"

section \<open>The matcher finds exactly the conforming texts\<close>

lemma takeWhile_prefix_len:
  "list_all p seg \<Longrightarrow> length seg \<le> length (takeWhile p (seg @ r))"
  by (induction seg) auto

lemma take_len_takeWhile:
  "n \<le> length (takeWhile p s) \<Longrightarrow> list_all p (take n s)"
proof -
  assume n: "n \<le> length (takeWhile p s)"
  have "take n s = take n (takeWhile p s)"
    by (metis n append_eq_conv_conj takeWhile_dropWhile_id take_append diff_is_0_eq take_0 append_Nil2)
  then show ?thesis
    by (metis list_all_iff in_set_takeD set_takeWhileD)
qed

lemma tries_conf:
  "n \<in> set (tries a s) \<longleftrightarrow> n \<le> length s \<and> conf a (take n s)"
proof (cases a)
  case (Atom p lo hi q)
  show ?thesis
  proof
    assume "n \<in> set (tries a s)"
    then have b: "lo \<le> n" "n \<le> length (takeWhile p s)" "case hi of None \<Rightarrow> True | Some h \<Rightarrow> n \<le> h"
      unfolding Atom tries_bounds by simp_all
    from b(2) have "n \<le> length s" using length_takeWhile_le [of p s] by simp
    with b show "n \<le> length s \<and> conf a (take n s)"
      by (auto simp: Atom take_len_takeWhile min_def split: option.splits)
  next
    assume c: "n \<le> length s \<and> conf a (take n s)"
    then have "list_all p (take n s)" by (simp add: Atom)
    from takeWhile_prefix_len [OF this, of "drop n s"] c
    have "n \<le> length (takeWhile p s)" by simp
    with c show "n \<in> set (tries a s)"
      unfolding Atom tries_bounds by (auto split: option.splits)
  qed
qed

lemma match_here_sound:
  "match_here as s = Some (segs, r) \<Longrightarrow> list_all2 conf as segs \<and> s = concat segs @ r"
proof (induction as arbitrary: s segs r)
  case Nil
  then show ?case by simp
next
  case (Cons a as)
  from Cons.prems obtain n segs' where
    n: "n \<in> set (tries a s)" and
    m: "match_here as (drop n s) = Some (segs', r)" and segs: "segs = take n s # segs'"
    by (auto dest!: first_some_SomeD split: option.splits)
  from Cons.IH [OF m] have "list_all2 conf as segs'" "drop n s = concat segs' @ r" by simp_all
  moreover from n have "conf a (take n s)" by (simp add: tries_conf)
  ultimately show ?case unfolding segs
    by (metis append_take_drop_id concat.simps(2) append_assoc list_all2_Cons)
qed

lemma match_here_complete:
  "list_all2 conf as segs \<Longrightarrow> match_here as (concat segs @ r) \<noteq> None"
proof (induction as arbitrary: segs)
  case Nil
  then show ?case by simp
next
  case (Cons a as)
  from Cons.prems obtain seg segs' where
    segs: "segs = seg # segs'" and c: "conf a seg" and rest: "list_all2 conf as segs'"
    by (auto simp: list_all2_Cons1)
  let ?s = "concat segs @ r"
  have "length seg \<in> set (tries a ?s)"
    using c by (simp add: tries_conf segs)
  moreover have "match_here as (drop (length seg) ?s) \<noteq> None"
    using Cons.IH [OF rest] by (simp add: segs)
  ultimately show ?case
    by (auto simp: first_some_None_iff split: option.splits simp del: tries.simps)
qed



lemma scan_found:
  "scan as s = Some m \<Longrightarrow>
     \<exists>pre s'. s = pre @ s' \<and> match_here as s' = Some m \<and>
       (\<forall>pre' s''. s = pre' @ s'' \<and> length pre' < length pre \<longrightarrow> match_here as s'' = None)"
proof (induction s)
  case Nil
  then show ?case by (auto simp del: match_here.simps)
next
  case (Cons c s)
  show ?case
  proof (cases "match_here as (c # s)")
    case (Some m')
    with Cons.prems have "match_here as (c # s) = Some m" by simp
    then show ?thesis by (metis append_Nil list.size(3) less_nat_zero_code)
  next
    case None
    with Cons.prems have "scan as s = Some m" by simp
    from Cons.IH [OF this] obtain pre s' where
      p: "s = pre @ s'" "match_here as s' = Some m"
      "\<forall>pre' s''. s = pre' @ s'' \<and> length pre' < length pre \<longrightarrow> match_here as s'' = None"
      by blast
    have "\<forall>pre' s''. c # s = pre' @ s'' \<and> length pre' < length (c # pre) \<longrightarrow> match_here as s'' = None"
    proof (intro allI impI)
      fix pre' s''
      assume a: "c # s = pre' @ s'' \<and> length pre' < length (c # pre)"
      show "match_here as s'' = None"
      proof (cases pre')
        case Nil
        with a None show ?thesis by simp
      next
        case (Cons x xs)
        with a have "s = xs @ s''" "length xs < length pre" by simp_all
        with p(3) show ?thesis by blast
      qed
    qed
    with p(1,2) show ?thesis
      by (metis append_Cons)
  qed
qed

lemma scan_none:
  "scan as s = None \<Longrightarrow> s = pre @ s' \<Longrightarrow> match_here as s' = None"
proof (induction s arbitrary: pre)
  case Nil
  then show ?case by (simp del: match_here.simps)
next
  case (Cons c s)
  from Cons.prems(1) have here: "match_here as (c # s) = None" and rest: "scan as s = None"
    by (auto split: option.splits simp del: match_here.simps)
  show ?case
  proof (cases pre)
    case Nil
    with Cons.prems(2) here show ?thesis by simp
  next
    case (Cons x xs)
    with Cons.prems(2) have "s = xs @ s'" by simp
    from Cons.IH [OF rest this] show ?thesis .
  qed
qed

lemma conf_lit: "conf (lit c) seg \<longleftrightarrow> seg = [c]"
  by (cases seg; cases "tl seg") (auto simp: lit_def)

lemma conf_plus: "conf (plus p) seg \<longleftrightarrow> seg \<noteq> [] \<and> list_all p seg"
  by (cases seg) (auto simp: plus_def)

lemma conf_lazy_plus: "conf (lazy_plus p) seg \<longleftrightarrow> seg \<noteq> [] \<and> list_all p seg"
  by (cases seg) (auto simp: lazy_plus_def)

lemma conf_opt: "conf (opt (\<lambda>x. x = c)) seg \<longleftrightarrow> seg = [] \<or> seg = [c]"
  by (cases seg; cases "tl seg") (auto simp: opt_def)

lemma conf_rep: "conf (rep p m n) seg \<longleftrightarrow> list_all p seg \<and> m \<le> length seg \<and> length seg \<le> n"
  by (auto simp: rep_def)

lemma list_all_is_dot: "list_all is_dot s \<longleftrightarrow> newline \<notin> set s"
  by (auto simp: list_all_iff is_dot_def)

lemma item_conf_iff:
  "list_all2 conf item_pattern segs \<longleftrightarrow>
     (\<exists>name w1 w2 q w3 dollar ip fp.
        segs = [name, w1, ''Q'', ''t'', ''y'', w2, q, w3, dollar, ip, ''.'', fp] \<and>
        name \<noteq> [] \<and> newline \<notin> set name \<and> white w1 \<and> white w2 \<and> number q \<and> white w3 \<and>
        (dollar = [] \<or> dollar = ''$'') \<and> number ip \<and> length fp = 2 \<and> list_all is_digit fp)"
  unfolding item_pattern_def
  by (simp add: list_all2_Cons1 conf_lit conf_plus conf_lazy_plus conf_opt conf_rep
        list_all_is_dot white_def number_def del: conf.simps) (auto 0 3)

lemma item_shape_iff:
  "item_shape s name q t r \<longleftrightarrow>
     (\<exists>segs. list_all2 conf item_pattern segs \<and> s = concat segs @ r \<and>
             item_groups segs = (name, q, t))"
proof
  assume "item_shape s name q t r"
  then obtain w1 w2 w3 dollar ip fp where
    s: "s = name @ w1 @ ''Qty'' @ w2 @ q @ w3 @ dollar @ t @ r" and t: "t = ip @ ''.'' @ fp" and
    c: "name \<noteq> []" "newline \<notin> set name" "white w1" "white w2" "number q" "white w3"
       "dollar = [] \<or> dollar = ''$''" "number ip" "length fp = 2" "list_all is_digit fp"
    unfolding item_shape_def by blast
  let ?segs = "[name, w1, ''Q'', ''t'', ''y'', w2, q, w3, dollar, ip, ''.'', fp]"
  have "list_all2 conf item_pattern ?segs"
    unfolding item_conf_iff using c by blast
  moreover have "s = concat ?segs @ r" by (simp add: s t)
  moreover have "item_groups ?segs = (name, q, t)" by (simp add: item_groups_def t)
  ultimately show "\<exists>segs. list_all2 conf item_pattern segs \<and> s = concat segs @ r \<and>
             item_groups segs = (name, q, t)" by blast
next
  assume "\<exists>segs. list_all2 conf item_pattern segs \<and> s = concat segs @ r \<and>
             item_groups segs = (name, q, t)"
  then obtain segs where a: "list_all2 conf item_pattern segs" "s = concat segs @ r"
    "item_groups segs = (name, q, t)" by blast
  from a(1) obtain name' w1 w2 q' w3 dollar ip fp where
    segs: "segs = [name', w1, ''Q'', ''t'', ''y'', w2, q', w3, dollar, ip, ''.'', fp]" and
    c: "name' \<noteq> []" "newline \<notin> set name'" "white w1" "white w2" "number q'" "white w3"
       "dollar = [] \<or> dollar = ''$''" "number ip" "length fp = 2" "list_all is_digit fp"
    unfolding item_conf_iff by blast
  from a(3) have g: "name' = name" "q' = q" "t = ip @ ''.'' @ fp"
    by (simp_all add: segs item_groups_def)
  have "s = name @ w1 @ ''Qty'' @ w2 @ q @ w3 @ dollar @ t @ r"
    by (simp add: a(2) segs g)
  with c g show "item_shape s name q t r"
    unfolding item_shape_def by blast
qed


lemma date_conf_iff:
  "list_all2 conf date_pattern segs \<longleftrightarrow>
     (\<exists>us ls dd yyyy.
        segs = [us, ls, '' '', dd, '','', '' '', yyyy, '' '', ''o'', ''r'', ''d'', ''e'', ''r''] \<and>
        list_all is_upper us \<and> length us = 1 \<and>
        list_all is_lower ls \<and> 2 \<le> length ls \<and> length ls \<le> 8 \<and>
        list_all is_digit dd \<and> 1 \<le> length dd \<and> length dd \<le> 2 \<and>
        list_all is_digit yyyy \<and> length yyyy = 4)"
  unfolding date_pattern_def date_atoms_def order_atoms_def
  apply (simp add: list_all2_Cons1 conf_lit conf_rep del: conf.simps)
  apply (rule iffI)
   apply (elim exE conjE)
   apply simp
  apply (elim exE conjE)
  apply simp
  done

lemma date_shape_iff:
  "date_shape d \<and> s = d @ '' order'' @ r \<longleftrightarrow>
     (\<exists>segs. list_all2 conf date_pattern segs \<and> s = concat segs @ r \<and> concat (take 7 segs) = d)"
proof
  assume a: "date_shape d \<and> s = d @ '' order'' @ r"
  then obtain u ls dd yyyy where
    d: "d = u # ls @ '' '' @ dd @ '', '' @ yyyy" and
    c: "is_upper u" "list_all is_lower ls" "2 \<le> length ls" "length ls \<le> 8"
       "list_all is_digit dd" "1 \<le> length dd" "length dd \<le> 2"
       "list_all is_digit yyyy" "length yyyy = 4"
    unfolding date_shape_def by blast
  let ?segs = "[[u], ls, '' '', dd, '','', '' '', yyyy, '' '', ''o'', ''r'', ''d'', ''e'', ''r'']"
  have "list_all2 conf date_pattern ?segs" unfolding date_conf_iff using c by simp
  moreover have "s = concat ?segs @ r" using a by (simp add: d)
  moreover have "concat (take 7 ?segs) = d" by (simp add: d)
  ultimately show "\<exists>segs. list_all2 conf date_pattern segs \<and> s = concat segs @ r \<and>
      concat (take 7 segs) = d" by blast
next
  assume "\<exists>segs. list_all2 conf date_pattern segs \<and> s = concat segs @ r \<and> concat (take 7 segs) = d"
  then obtain segs where a: "list_all2 conf date_pattern segs" "s = concat segs @ r"
    "concat (take 7 segs) = d" by blast
  from a(1) obtain us ls dd yyyy where
    segs0: "segs = [us, ls, '' '', dd, '','', '' '', yyyy, '' '', ''o'', ''r'', ''d'', ''e'', ''r'']" and
    us: "list_all is_upper us" "length us = 1" and
    c0: "list_all is_lower ls" "2 \<le> length ls" "length ls \<le> 8"
       "list_all is_digit dd" "1 \<le> length dd" "length dd \<le> 2"
       "list_all is_digit yyyy" "length yyyy = 4"
    unfolding date_conf_iff by blast
  from us obtain u where u: "us = [u]" "is_upper u"
    by (cases us) auto
  note segs = segs0 [unfolded u(1)]
  note c = u(2) c0
  from a(3) have d: "d = u # ls @ '' '' @ dd @ '', '' @ yyyy" by (simp add: segs)
  then have "date_shape d" unfolding date_shape_def using c by blast
  moreover have "s = d @ '' order'' @ r" by (simp add: a(2) segs d)
  ultimately show "date_shape d \<and> s = d @ '' order'' @ r" by simp
qed

lemma run_unique:
  assumes "list_all p a" "list_all p b" "\<not> p x" "\<not> p y" "a @ x # r = b @ y # r'"
  shows "a = b \<and> r = r'"
proof -
  have "takeWhile p (a @ x # r) = a" "takeWhile p (b @ y # r') = b"
    using assms(1-4) by (simp_all add: takeWhile_append2 list_all_iff)
  with assms(5) have "a = b" by simp
  with assms(5) show ?thesis by simp
qed

lemma date_shape_unique:
  assumes "date_shape d" "date_shape d'" "d @ r = d' @ r'"
  shows "d = d'"
proof -
  from assms(1) obtain u ls dd yyyy where
    d: "d = u # ls @ '' '' @ dd @ '', '' @ yyyy" and
    c: "list_all is_lower ls" "list_all is_digit dd" "length yyyy = 4"
    unfolding date_shape_def by blast
  from assms(2) obtain u' ls' dd' yyyy' where
    d': "d' = u' # ls' @ '' '' @ dd' @ '', '' @ yyyy'" and
    c': "list_all is_lower ls'" "list_all is_digit dd'" "length yyyy' = 4"
    unfolding date_shape_def by blast
  have nl: "\<not> is_lower CHR '' ''" and nd: "\<not> is_digit CHR '',''"
    by (simp_all add: is_lower_def is_digit_def)
  from assms(3) have u: "u = u'" and
    e1: "ls @ CHR '' '' # (dd @ '', '' @ yyyy @ r) = ls' @ CHR '' '' # (dd' @ '', '' @ yyyy' @ r')"
    by (simp_all add: d d')
  from run_unique [OF c(1) c'(1) nl nl e1] have ls: "ls = ls'" and
    e2: "dd @ CHR '','' # ('' '' @ yyyy @ r) = dd' @ CHR '','' # ('' '' @ yyyy' @ r')"
    by simp_all
  from run_unique [OF c(2) c'(2) nd nd e2] have dd: "dd = dd'" and e3: "yyyy @ r = yyyy' @ r'"
    by simp_all
  from e3 c(3) c'(3) have "yyyy = yyyy'" by simp
  with u ls dd show ?thesis by (simp add: d d')
qed

lemma date_match_sound:
  assumes "match_here date_pattern s = Some (segs, r)"
  shows "date_shape (concat (take 7 segs)) \<and> s = concat (take 7 segs) @ '' order'' @ r"
proof -
  from match_here_sound [OF assms] have
    "\<exists>segs'. list_all2 conf date_pattern segs' \<and> s = concat segs' @ r \<and>
       concat (take 7 segs') = concat (take 7 segs)" by blast
  then show ?thesis by (simp only: date_shape_iff [symmetric])
qed

lemma date_match_complete:
  assumes "date_shape d"
  shows "match_here date_pattern (d @ '' order'' @ post) \<noteq> None"
proof -
  from assms have "date_shape d \<and> d @ '' order'' @ post = d @ '' order'' @ post" by simp
  then obtain segs where c: "list_all2 conf date_pattern segs" and
    e: "d @ '' order'' @ post = concat segs @ post"
    by (subst (asm) date_shape_iff) blast
  show ?thesis unfolding e by (rule match_here_complete [OF c])
qed

lemma ex_date: "date_shape ''Oct 5, 2023''"
  unfolding date_shape_def
  apply (rule exI [of _ "CHR ''O''"], rule exI [of _ "''ct''"], rule exI [of _ "''5''"], rule exI [of _ "''2023''"])
  apply (simp add: is_upper_def is_lower_def is_digit_def)
  done

section \<open>The order date\<close>

lemma order_date_cases:
  "((\<forall>pre d post. tx = pre @ d @ '' order'' @ post \<longrightarrow> \<not> date_shape d) \<longrightarrow>
      order_date_of tx = not_found) \<and>
   (\<forall>pre d post.
      tx = pre @ d @ '' order'' @ post \<and> date_shape d \<and>
      (\<forall>pre' d' post'. tx = pre' @ d' @ '' order'' @ post' \<and> date_shape d'
         \<longrightarrow> length pre \<le> length pre')
      \<longrightarrow> order_date_of tx = d)"
proof (intro conjI impI allI)
  assume none: "\<forall>pre d post. tx = pre @ d @ '' order'' @ post \<longrightarrow> \<not> date_shape d"
  have "scan date_pattern tx = None"
  proof (rule ccontr)
    assume "scan date_pattern tx \<noteq> None"
    then obtain segs r where "scan date_pattern tx = Some (segs, r)" by auto
    from scan_found [OF this] obtain pre s where
      tx: "tx = pre @ s" and m: "match_here date_pattern s = Some (segs, r)" by blast
    from date_match_sound [OF m] tx
    have "tx = pre @ concat (take 7 segs) @ '' order'' @ r" "date_shape (concat (take 7 segs))"
      by simp_all
    with none show False by blast
  qed
  then show "order_date_of tx = not_found" by (simp add: order_date_of_def)
next
  fix pre d post
  assume a: "tx = pre @ d @ '' order'' @ post \<and> date_shape d \<and>
      (\<forall>pre' d' post'. tx = pre' @ d' @ '' order'' @ post' \<and> date_shape d'
         \<longrightarrow> length pre \<le> length pre')"
  then have tx0: "tx = pre @ d @ '' order'' @ post" and d: "date_shape d" and
    first: "\<forall>pre' d' post'. tx = pre' @ d' @ '' order'' @ post' \<and> date_shape d'
         \<longrightarrow> length pre \<le> length pre'" by simp_all
  from date_match_complete [OF d] have here: "match_here date_pattern (d @ '' order'' @ post) \<noteq> None" .
  have "scan date_pattern tx \<noteq> None"
  proof
    assume "scan date_pattern tx = None"
    from here scan_none [OF this tx0] show False by (rule notE)
  qed
  then obtain segs r where sc: "scan date_pattern tx = Some (segs, r)" by auto
  from scan_found [OF this] obtain pre0 s0 where
    tx: "tx = pre0 @ s0" and m: "match_here date_pattern s0 = Some (segs, r)" and
    left: "\<forall>pre' s''. tx = pre' @ s'' \<and> length pre' < length pre0 \<longrightarrow>
             match_here date_pattern s'' = None"
    by blast
  let ?d0 = "concat (take 7 segs)"
  from date_match_sound [OF m] have d0: "date_shape ?d0" "s0 = ?d0 @ '' order'' @ r"
    by simp_all
  from first [rule_format, of pre0 ?d0 r] tx d0 have "length pre \<le> length pre0" by simp
  moreover have "\<not> length pre < length pre0"
  proof
    assume "length pre < length pre0"
    with tx0 left have "match_here date_pattern (d @ '' order'' @ post) = None" by blast
    with here show False by (rule notE)
  qed
  ultimately have "length pre = length pre0" by simp
  with tx0 tx have "d @ '' order'' @ post = s0" by simp
  with d0 have "d @ ('' order'' @ post) = ?d0 @ ('' order'' @ r)" by simp
  from date_shape_unique [OF d d0(1) this] have "d = ?d0" .
  with sc show "order_date_of tx = d" by (simp add: order_date_of_def)
qed

text \<open>
  Claim C6. The order date is the date of the first substring of the shape
  "month day, year" that is followed by " order" (the leftmost one); when the text has no
  such substring, it is the sentinel "Date Not Found". In particular a text in which
  "Oct 5, 2023 order" is the first such substring yields "Oct 5, 2023".
\<close>

theorem order_date_first_match:
  "((\<forall>pre d post. tx = pre @ d @ '' order'' @ post \<longrightarrow> \<not> date_shape d) \<longrightarrow>
      order_date_of tx = not_found) \<and>
   (\<forall>pre d post.
      tx = pre @ d @ '' order'' @ post \<and> date_shape d \<and>
      (\<forall>pre' d' post'. tx = pre' @ d' @ '' order'' @ post' \<and> date_shape d'
         \<longrightarrow> length pre \<le> length pre')
      \<longrightarrow> order_date_of tx = d) \<and>
   (\<forall>pre post.
      tx = pre @ ''Oct 5, 2023 order'' @ post \<and>
      (\<forall>pre' d' post'. tx = pre' @ d' @ '' order'' @ post' \<and> date_shape d'
         \<longrightarrow> length pre \<le> length pre')
      \<longrightarrow> order_date_of tx = ''Oct 5, 2023'')"
proof (intro conjI)
  show "(\<forall>pre d post. tx = pre @ d @ '' order'' @ post \<longrightarrow> \<not> date_shape d) \<longrightarrow>
      order_date_of tx = not_found"
    using order_date_cases [of tx] by (rule conjunct1)
next
  show first: "\<forall>pre d post.
      tx = pre @ d @ '' order'' @ post \<and> date_shape d \<and>
      (\<forall>pre' d' post'. tx = pre' @ d' @ '' order'' @ post' \<and> date_shape d'
         \<longrightarrow> length pre \<le> length pre')
      \<longrightarrow> order_date_of tx = d"
    using order_date_cases [of tx] by (rule conjunct2)
  show "\<forall>pre post.
      tx = pre @ ''Oct 5, 2023 order'' @ post \<and>
      (\<forall>pre' d' post'. tx = pre' @ d' @ '' order'' @ post' \<and> date_shape d'
         \<longrightarrow> length pre \<le> length pre')
      \<longrightarrow> order_date_of tx = ''Oct 5, 2023''"
  proof (intro allI impI)
    fix pre post
    assume a: "tx = pre @ ''Oct 5, 2023 order'' @ post \<and>
      (\<forall>pre' d' post'. tx = pre' @ d' @ '' order'' @ post' \<and> date_shape d'
         \<longrightarrow> length pre \<le> length pre')"
    then have "tx = pre @ ''Oct 5, 2023'' @ '' order'' @ post" by simp
    with a ex_date first show "order_date_of tx = ''Oct 5, 2023''" by blast
  qed
qed

theorem order_date_first_match_witness:
  "order_date_of [] = not_found \<and> order_date_of ''Oct 5, 2023 order'' = ''Oct 5, 2023''"
proof
  have "\<forall>pre d post. [] = pre @ d @ '' order'' @ post \<longrightarrow> \<not> date_shape d" by simp
  with order_date_first_match [of "[]"] show "order_date_of [] = not_found" by blast
next
  let ?tx = "''Oct 5, 2023 order''"
  have "?tx = [] @ ''Oct 5, 2023'' @ '' order'' @ [] \<and> date_shape ''Oct 5, 2023'' \<and>
      (\<forall>pre' d' post'. ?tx = pre' @ d' @ '' order'' @ post' \<and> date_shape d'
         \<longrightarrow> length ([] :: string) \<le> length pre')"
    using ex_date by simp
  with order_date_first_match [of ?tx] show "order_date_of ?tx = ''Oct 5, 2023''" by blast
qed

section \<open>The line items\<close>



lemma find_items_Nil_iff:
  "find_items tx = [] \<longleftrightarrow> (\<forall>pre s name q t r. tx = pre @ s \<longrightarrow> \<not> item_shape s name q t r)"
proof
  assume "find_items tx = []"
  then have none: "scan item_pattern tx = None"
    by (simp add: find_items.simps [of tx] split: option.splits prod.splits)
  show "\<forall>pre s name q t r. tx = pre @ s \<longrightarrow> \<not> item_shape s name q t r"
  proof (intro allI impI notI)
    fix pre s name q t r
    assume "tx = pre @ s" and "item_shape s name q t r"
    then show False
      using scan_none [OF none] match_here_complete unfolding item_shape_iff by blast
  qed
next
  assume a: "\<forall>pre s name q t r. tx = pre @ s \<longrightarrow> \<not> item_shape s name q t r"
  have "scan item_pattern tx = None"
  proof (rule ccontr)
    assume "scan item_pattern tx \<noteq> None"
    then obtain segs r where "scan item_pattern tx = Some (segs, r)" by auto
    from scan_found [OF this] obtain pre s where
      tx: "tx = pre @ s" and m: "match_here item_pattern s = Some (segs, r)" by blast
    obtain name q t where "item_groups segs = (name, q, t)" by (cases "item_groups segs")
    with match_here_sound [OF m] have "item_shape s name q t r"
      unfolding item_shape_iff by blast
    with a tx show False by blast
  qed
  then show "find_items tx = []" by (simp add: find_items.simps [of tx])
qed

lemma order_date_empty: "order_date_of [] = not_found"
  by code_simp












text \<open>
  Claim C2. The parser never places a line item with quantity 0 into the item table.
  The source has no such guard: the text "X Qty 0 $1.50" yields a row with quantity 0,
  whose unit price is the infinity that the division by zero gives.
\<close>

theorem zero_quantity_row:
  "fst (parse_text ''X Qty 0 $1.50'') =
     [\<lparr>item = ''X'', qty = 0, total = 3 / 2, unit_price = PInf\<rparr>]"
  by code_simp

text \<open>
  Claim C5. When the text has no match of the item shape, the item table is empty and
  nothing is raised; for the empty text the order date is the sentinel.
\<close>

theorem parse_no_items:
  "((\<forall>pre s name q t r. tx = pre @ s \<longrightarrow> \<not> item_shape s name q t r) \<longrightarrow>
      parse_text tx = ([], order_date_of tx)) \<and>
   parse_text [] = ([], not_found) \<and>
   (receipt_text pages = [] \<longrightarrow> parse_receipt pages = ([], not_found))"
proof -
  have a: "parse_text tx = ([], order_date_of tx)"
    if "\<forall>pre s name q t r. tx = pre @ s \<longrightarrow> \<not> item_shape s name q t r" for tx
  proof -
    from that have "find_items tx = []" by (simp only: find_items_Nil_iff)
    then show ?thesis by (simp add: parse_text_def)
  qed
  have "\<forall>pre s name q t r. [] = pre @ s \<longrightarrow> \<not> item_shape s name q t r"
    by (simp add: item_shape_def)
  from a [OF this] have b: "parse_text [] = ([], not_found)"
    by (simp add: order_date_empty)
  from a b show ?thesis by (simp add: parse_receipt_def)
qed

theorem parse_no_items_witness:
  "parse_text ''no items here'' = ([], order_date_of ''no items here'')"
proof -
  have "find_items ''no items here'' = []" by code_simp
  then have "\<forall>pre s name q t r. ''no items here'' = pre @ s \<longrightarrow> \<not> item_shape s name q t r"
    by (simp only: find_items_Nil_iff)
  with parse_no_items [of "''no items here''"] show ?thesis by blast
qed

section \<open>The summary\<close>

lemma fmt2_zero: "fmt2 (Fin 0) = ''0.00''"
  by code_simp

text \<open>
  Claim C8. With an empty list of people the summary is the header and the grand total
  line, which reads $0.00: no section of a person, no error.
\<close>

theorem summary_no_people:
  "build_summary df assignments [] order_date =
     Inr (order_date @ '':'' @ [newline, newline] @ ''Grand Total = $0.00'' @ [newline])"
  by (simp add: build_summary_def assign_frame_def total_allocated_def py_sum_def fmt2_zero
        del: fmt2.simps)

section \<open>The unit price of a line item\<close>





section \<open>The unit cards\<close>

lemma digit_char_digit: "d < 10 \<Longrightarrow> is_digit (digit_char d)"
proof -
  assume "d < 10"
  then have "d \<in> {0,1,2,3,4,5,6,7,8,9}" by auto
  then show ?thesis by (auto simp: digit_char_def is_digit_def)
qed

lemma digit_val_char: "d < 10 \<Longrightarrow> digit_val (digit_char d) = d"
proof -
  assume "d < 10"
  then have "d \<in> {0,1,2,3,4,5,6,7,8,9}" by auto
  then show ?thesis by (auto simp: digit_char_def digit_val_def)
qed

lemma dec_digits: "list_all is_digit (dec n) \<and> dec n \<noteq> []"
proof (induction n rule: dec.induct)
  case (1 n)
  show ?case
  proof (cases "n < 10")
    case True
    then show ?thesis by (simp add: dec.simps [of n] digit_char_digit)
  next
    case False
    with 1 show ?thesis by (simp add: dec.simps [of n] digit_char_digit)
  qed
qed

lemma nat_of_digits_snoc: "nat_of_digits (s @ [c]) = 10 * nat_of_digits s + digit_val c"
  by (simp add: nat_of_digits_def)

lemma nat_of_digits_dec: "nat_of_digits (dec n) = n"
proof (induction n rule: dec.induct)
  case (1 n)
  show ?case
  proof (cases "n < 10")
    case True
    then show ?thesis by (simp add: dec.simps [of n] nat_of_digits_def digit_val_char)
  next
    case False
    with 1 have "nat_of_digits (dec (n div 10)) = n div 10" by simp
    with False show ?thesis
      by (simp add: dec.simps [of n] nat_of_digits_snoc digit_val_char)
  qed
qed

lemma takeWhile_run:
  "list_all p a \<Longrightarrow> \<not> p x \<Longrightarrow> takeWhile p (a @ x # r) = a"
  by (simp add: takeWhile_append2 list_all_iff)

lemma digits_not: "list_all is_digit s \<Longrightarrow> list_all (\<lambda>x. x \<noteq> CHR '':'') s \<and>
    list_all (\<lambda>x. x \<noteq> CHR ''_'') s \<and> list_all (\<lambda>x. \<not> is_space x) s \<and>
    list_all (\<lambda>x. x \<noteq> CHR ''-'' \<and> x \<noteq> CHR ''+'') s"
  by (induction s) (auto simp: is_digit_def is_space_def)

lemma strip_digits:
  assumes "list_all is_digit s"
  shows "strip s = s"
proof (cases s)
  case Nil
  then show ?thesis by (simp add: strip_def)
next
  case (Cons c cs)
  from assms have ns: "list_all (\<lambda>x. \<not> is_space x) s" by (simp add: digits_not)
  with Cons have 1: "dropWhile is_space s = s" by simp
  from ns have "list_all (\<lambda>x. \<not> is_space x) (rev s)" by (simp add: list_all_iff)
  moreover from Cons have "rev s \<noteq> []" by simp
  ultimately have "dropWhile is_space (rev s) = rev s"
    by (cases "rev s") simp_all
  with 1 show ?thesis by (simp add: strip_def)
qed

lemma int_of_str_dec: "int_of_str (dec n) = Inr (int n)"
proof -
  have d: "list_all is_digit (dec n)" "dec n \<noteq> []" using dec_digits by simp_all
  from d(1) have "list_all (\<lambda>x. x \<noteq> CHR ''-'' \<and> x \<noteq> CHR ''+'') (dec n)" by (simp add: digits_not)
  with d(2) have "hd (dec n) \<noteq> CHR ''-''" "hd (dec n) \<noteq> CHR ''+''"
    by (cases "dec n"; simp)+
  with d show ?thesis
    by (simp add: int_of_str_def strip_digits nat_of_digits_dec Let_def)
qed

lemma card_index_card: "card_index (card idx i name) = Inr (int idx)"
proof -
  have 1: "list_all (\<lambda>x. x \<noteq> CHR '':'') (dec idx @ ''_'' @ dec i)"
    using dec_digits [of idx] dec_digits [of i] by (simp add: digits_not)
  have "card idx i name = (dec idx @ ''_'' @ dec i) @ CHR '':'' # ('' '' @ name)"
    by (simp add: card_def)
  then have "takeWhile (\<lambda>x. x \<noteq> CHR '':'') (card idx i name) = dec idx @ ''_'' @ dec i"
    using takeWhile_run [OF 1, of "CHR '':''"] by simp
  moreover have "takeWhile (\<lambda>x. x \<noteq> CHR ''_'') (dec idx @ CHR ''_'' # dec i) = dec idx"
    using dec_digits [of idx] by (intro takeWhile_run) (simp_all add: digits_not)
  ultimately show ?thesis by (simp add: card_index_def int_of_str_dec)
qed

lemma cards_from_concat:
  "cards_from k rows =
     concat (map (\<lambda>j. map (\<lambda>i. card (k + j) i (item (rows ! j))) [0..<qty (rows ! j)])
                 [0..<length rows])"
proof (induction rows arbitrary: k)
  case Nil
  then show ?case by simp
next
  case (Cons row rows)
  have "[0..<length (row # rows)] = 0 # map Suc [0..<length rows]"
    by (simp add: upt_conv_Cons map_Suc_upt del: upt_Suc)
  then show ?case by (simp add: Cons.IH comp_def del: upt_Suc)
qed

lemma length_filter_concat:
  "length (filter P (concat xss)) = sum_list (map (\<lambda>xs. length (filter P xs)) xss)"
  by (induction xss) simp_all

lemma length_filter_const: "length (filter (\<lambda>_. b) xs) = (if b then length xs else 0)"
  by simp

lemma sum_list_single:
  "sum_list (map (\<lambda>j. if j = i then f j else (0::nat)) [0..<n]) = (if i < n then f i else 0)"
  by (induction n) auto

text \<open>
  Claim C7. The unit cards are, for the rows of the table in order, one card per ordinal
  from 0 to the quantity less one, in increasing order; the number of cards that carry the
  index \<open>i\<close> (read back as the tally reads it) is the quantity of row \<open>i\<close>.
\<close>

theorem unit_cards_count:
  "unit_cards df =
     concat (map (\<lambda>idx. map (\<lambda>i. card idx i (item (df ! idx))) [0..<qty (df ! idx)])
                 [0..<length df]) \<and>
   (\<forall>i < length df.
      length (filter (\<lambda>c. card_index c = Inr (int i)) (unit_cards df)) = qty (df ! i))"
proof (intro conjI allI impI)
  show s: "unit_cards df =
     concat (map (\<lambda>idx. map (\<lambda>i. card idx i (item (df ! idx))) [0..<qty (df ! idx)])
                 [0..<length df])"
    by (simp add: unit_cards_def cards_from_concat)
  fix i assume i: "i < length df"
  have "length (filter (\<lambda>c. card_index c = Inr (int i)) (unit_cards df)) =
      sum_list (map (\<lambda>j. if j = i then qty (df ! j) else 0) [0..<length df])"
    unfolding s length_filter_concat
    by (simp add: comp_def filter_map card_index_card length_filter_const cong: if_cong)
  also have "\<dots> = qty (df ! i)" using i by (simp only: sum_list_single if_True)
  finally show "length (filter (\<lambda>c. card_index c = Inr (int i)) (unit_cards df)) = qty (df ! i)" .
qed

theorem unit_cards_count_witness:
  "length (filter (\<lambda>c. card_index c = Inr 0)
     (unit_cards [\<lparr>item = ''Bananas'', qty = 3, total = 3 / 2, unit_price = Fin (1 / 2)\<rparr>])) = 3 \<and>
   unit_cards [\<lparr>item = ''Bananas'', qty = 3, total = 3 / 2, unit_price = Fin (1 / 2)\<rparr>] =
     [''0_0: Bananas'', ''0_1: Bananas'', ''0_2: Bananas'']"
proof
  let ?df = "[\<lparr>item = ''Bananas'', qty = 3, total = 3 / 2, unit_price = Fin (1 / 2)\<rparr>]"
  have "(0::nat) < length ?df" by simp
  with unit_cards_count [of ?df]
  have "length (filter (\<lambda>c. card_index c = Inr (int 0)) (unit_cards ?df)) = qty (?df ! 0)"
    by blast
  then show "length (filter (\<lambda>c. card_index c = Inr 0) (unit_cards ?df)) = 3" by simp
next
  show "unit_cards [\<lparr>item = ''Bananas'', qty = 3, total = 3 / 2, unit_price = Fin (1 / 2)\<rparr>] =
     [''0_0: Bananas'', ''0_1: Bananas'', ''0_2: Bananas'']" by code_simp
qed

section \<open>Counts and costs, in the words of the specification\<close>






section \<open>The frame after the first loop\<close>













lemma cost_neq_self: "p @ ''_cost'' \<noteq> p"
  by simp











section \<open>The claims about the summary\<close>









end
